theory Spec2Isabelle
  imports Complex_Main "HOL-Library.Multiset" "HOL-Library.Option_ord"
begin

section \<open>Python values shared by the modules\<close>

text \<open>
  An exception raised by the code is a value. \<open>PyException cls msg\<close> is an instance of a
  class deriving from \<open>Exception\<close> (the ones an \<open>except Exception\<close> clause catches),
  \<open>PyBaseException cls msg\<close> an instance of a class deriving from \<open>BaseException\<close> only
  (\<open>SystemExit\<close>, \<open>KeyboardInterrupt\<close>, \<open>GeneratorExit\<close>), which \<open>except Exception\<close> lets
  through and a bare \<open>except:\<close> catches. \<open>msg\<close> is what \<open>str(e)\<close> returns.
\<close>

datatype pyexc = PyException string string | PyBaseException string string

fun derives_Exception :: "pyexc \<Rightarrow> bool" where
  "derives_Exception (PyException c m) = True"
| "derives_Exception (PyBaseException c m) = False"

fun exc_str :: "pyexc \<Rightarrow> string" where
  "exc_str (PyException c m) = m"
| "exc_str (PyBaseException c m) = m"

definition IndexError :: pyexc where
  "IndexError = PyException ''IndexError'' ''list index out of range''"

definition ZeroDivisionError :: pyexc where
  "ZeroDivisionError = PyException ''ZeroDivisionError'' ''division by zero''"

definition ValueError_min :: pyexc where
  "ValueError_min = PyException ''ValueError'' ''min() arg is an empty sequence''"

text \<open>The values stored in a metadata dictionary (\<open>Dict[str, Any]\<close>).\<close>

datatype metaval = MStr string | MInt int | MFloat real | MFloats "real list"

type_synonym metadata = "string \<rightharpoonup> metaval"

section \<open>core/program\_db.py\<close>

text \<open>
  The dataclass \<open>Program\<close>. Fitness is a Python float, modelled as a real number (no NaN,
  no infinities, no rounding). \<open>timestamp\<close> is the reading of \<open>datetime.now\<close> taken when
  the object is built; \<open>parent_id\<close> is the \<open>id()\<close> of the parent object.
\<close>

record program =
  code :: string
  fitness :: real
  metadata :: metadata
  timestamp :: nat
  generation :: int
  parent_id :: "int option"

text \<open>\<open>Program.__lt__\<close>: programs compare by fitness.\<close>

definition program_lt :: "program \<Rightarrow> program \<Rightarrow> bool" where
  "program_lt self other = (fitness self < fitness other)"

subsection \<open>The heap operations of Python's heapq on a list of programs\<close>

text \<open>
  \<open>heapq._siftdown(heap, startpos, pos)\<close>: follow the path to the root, moving parents
  down until a place is found where \<open>newitem\<close> fits. The loop returns the list and the
  position where \<open>newitem\<close> is then stored.
\<close>

function siftdown_loop :: "program list \<Rightarrow> program \<Rightarrow> nat \<Rightarrow> nat \<Rightarrow> program list \<times> nat" where
  "siftdown_loop heap newitem startpos pos =
     (if pos > startpos then
        (let parentpos = (pos - 1) div 2;
             parent = heap ! parentpos
         in if program_lt newitem parent
            then siftdown_loop (heap[pos := parent]) newitem startpos parentpos
            else (heap, pos))
      else (heap, pos))"
  by pat_completeness auto
termination
  by (relation "measure (\<lambda>(heap, newitem, startpos, pos). pos)") auto

declare siftdown_loop.simps [simp del]

definition siftdown :: "program list \<Rightarrow> nat \<Rightarrow> nat \<Rightarrow> program list" where
  "siftdown heap startpos pos =
     (let newitem = heap ! pos;
          (heap', pos') = siftdown_loop heap newitem startpos pos
      in heap'[pos' := newitem])"

text \<open>
  \<open>heapq._siftup(heap, pos)\<close>: bubble the smaller child up until a leaf is hit, put
  \<open>newitem\<close> there and sift it down (towards the root) to its final place.
\<close>

function siftup_loop :: "program list \<Rightarrow> nat \<Rightarrow> nat \<Rightarrow> program list \<times> nat" where
  "siftup_loop heap endpos pos =
     (let childpos = 2 * pos + 1 in
      if childpos < endpos then
        (let rightpos = childpos + 1;
             childpos' = (if rightpos < endpos \<and> \<not> program_lt (heap ! childpos) (heap ! rightpos)
                          then rightpos else childpos)
         in siftup_loop (heap[pos := heap ! childpos']) endpos childpos')
      else (heap, pos))"
  by pat_completeness auto
termination
  by (relation "measure (\<lambda>(heap, endpos, pos). endpos - pos)") (auto simp: Let_def)

declare siftup_loop.simps [simp del]

definition siftup :: "program list \<Rightarrow> nat \<Rightarrow> program list" where
  "siftup heap pos =
     (let endpos = length heap;
          startpos = pos;
          newitem = heap ! pos;
          (heap', pos') = siftup_loop heap endpos pos
      in siftdown (heap'[pos' := newitem]) startpos pos')"

text \<open>\<open>heapq.heappush(heap, item)\<close>: append, then sift the new last element down.\<close>

definition heappush :: "program list \<Rightarrow> program \<Rightarrow> program list" where
  "heappush heap item = siftdown (heap @ [item]) 0 (length heap)"

text \<open>
  \<open>heapq.heapreplace(heap, item)\<close>: pop and return the element at index 0 and push
  \<open>item\<close>; \<open>heap[0]\<close> raises IndexError on an empty list.
\<close>

definition heapreplace :: "program list \<Rightarrow> program \<Rightarrow> pyexc + program \<times> program list" where
  "heapreplace heap item =
     (case heap of
        [] \<Rightarrow> Inl IndexError
      | returnitem # _ \<Rightarrow> Inr (returnitem, siftup (heap[0 := item]) 0))"

subsection \<open>ProgramDatabase\<close>

record program_database =
  max_size :: int
  programs :: "program list"
  best_program :: "program option"
  db_generation :: int

text \<open>\<open>ProgramDatabase.__init__\<close>.\<close>

definition init_database :: "int \<Rightarrow> program_database" where
  "init_database n =
     \<lparr>max_size = n, programs = [], best_program = None, db_generation = 0\<rparr>"

text \<open>
  \<open>ProgramDatabase.add_program\<close>. The call mutates the database and then returns a bool
  or raises; the model returns the outcome together with the database as the call leaves
  it, also when it raises. \<open>now\<close> is the clock reading stored in the new \<open>Program\<close>.
\<close>

definition add_program ::
  "program_database \<Rightarrow> string \<Rightarrow> real \<Rightarrow> metadata option \<Rightarrow> int option \<Rightarrow> nat
     \<Rightarrow> (pyexc + bool) \<times> program_database" where
  "add_program self code' fitness' metadata' parent_id' now =
     (let metadata'' = (case metadata' of None \<Rightarrow> Map.empty | Some m \<Rightarrow> m);
          program = \<lparr>code = code', fitness = fitness', metadata = metadata'',
                     timestamp = now, generation = db_generation self,
                     parent_id = parent_id'\<rparr>;
          self = (if (case best_program self of None \<Rightarrow> True
                      | Some b \<Rightarrow> fitness' > fitness b)
                  then self\<lparr>best_program := Some program\<rparr> else self)
      in if int (length (programs self)) < max_size self then
           (Inr True, self\<lparr>programs := heappush (programs self) program\<rparr>)
         else (case programs self of
                 [] \<Rightarrow> (Inl IndexError, self)
               | worst # _ \<Rightarrow>
                   if fitness' > fitness worst then
                     (case heapreplace (programs self) program of
                        Inl e \<Rightarrow> (Inl e, self)
                      | Inr (evicted, heap') \<Rightarrow> (Inr True, self\<lparr>programs := heap'\<rparr>))
                   else (Inr False, self)))"

text \<open>\<open>get_best\<close>: \<open>sorted(..., key=fitness, reverse=True)[:n]\<close>. Python's sort is stable,
  also with \<open>reverse=True\<close>: elements of equal fitness keep their order in the list.
  A negative \<open>n\<close> cuts \<open>-n\<close> elements off the end.\<close>

definition sorted_desc :: "program list \<Rightarrow> program list" where
  "sorted_desc ps = rev (sort_key fitness (rev ps))"

definition get_best :: "program_database \<Rightarrow> int \<Rightarrow> program list" where
  "get_best self n =
     (let sorted_programs = sorted_desc (programs self)
      in if 0 \<le> n then take (nat n) sorted_programs
         else take (length sorted_programs - nat (- n)) sorted_programs)"

definition get_best_program :: "program_database \<Rightarrow> program option" where
  "get_best_program self = best_program self"

text \<open>
  \<open>sample_program\<close>. \<open>random.choice(seq)\<close> returns \<open>seq[k]\<close> for an index \<open>k\<close> that the
  generator draws uniformly from \<open>range(len(seq))\<close>; the draw is the argument \<open>k\<close>.
\<close>

definition sample_pool :: "program_database \<Rightarrow> program list" where
  "sample_pool self = get_best self (max 1 (int (length (programs self)) div 5))"

definition sample_program :: "program_database \<Rightarrow> nat \<Rightarrow> program option" where
  "sample_program self k =
     (if programs self = [] then None
      else Some (sample_pool self ! k))"

definition increment_generation :: "program_database \<Rightarrow> program_database" where
  "increment_generation self = self\<lparr>db_generation := db_generation self + 1\<rparr>"


section \<open>environment/predator\_prey\_env.py\<close>

text \<open>
  Coordinates, speeds and distances are Python floats, modelled as real numbers. The
  fields \<open>x\<close> and \<open>y\<close> of \<open>Agent\<close> are named \<open>agent_x\<close> and \<open>agent_y\<close>.
\<close>

record agent =
  agent_x :: real
  agent_y :: real
  alive :: bool

definition distance_to :: "agent \<Rightarrow> agent \<Rightarrow> real" where
  "distance_to self other =
     (let dx = agent_x self - agent_x other;
          dy = agent_y self - agent_y other
      in sqrt (dx\<^sup>2 + dy\<^sup>2))"

record environment =
  width :: real
  height :: real
  num_mice :: int
  num_predators :: int
  max_steps :: int
  predator_speed :: real
  mouse_speed :: real
  capture_distance :: real

text \<open>
  The module \<open>random\<close>: the generator is the sequence of the values that successive
  calls of \<open>random.random()\<close> return; a call takes the first one and leaves the rest.
  \<open>random.uniform(a, b)\<close> is \<open>a + (b - a) * random()\<close>.
\<close>

type_synonym rng = "nat \<Rightarrow> real"

definition uniform :: "real \<Rightarrow> real \<Rightarrow> rng \<Rightarrow> real \<times> rng" where
  "uniform a b g = (a + (b - a) * g 0, (\<lambda>i. g (Suc i)))"

text \<open>The two loops of \<open>_initialize_agents\<close>: \<open>x\<close> is drawn before \<open>y\<close>, mice before
  predators; \<open>range(n)\<close> is empty for a negative \<open>n\<close>.\<close>

fun place_agents :: "environment \<Rightarrow> nat \<Rightarrow> rng \<Rightarrow> agent list \<times> rng" where
  "place_agents self 0 g = ([], g)"
| "place_agents self (Suc k) g =
     (let (x, g1) = uniform 0 (width self) g;
          (y, g2) = uniform 0 (height self) g1;
          (rest, g3) = place_agents self k g2
      in (\<lparr>agent_x = x, agent_y = y, alive = True\<rparr> # rest, g3))"

definition initialize_agents :: "environment \<Rightarrow> rng \<Rightarrow> (agent list \<times> agent list) \<times> rng" where
  "initialize_agents self g =
     (let (mice, g1) = place_agents self (nat (num_mice self)) g;
          (predators, g2) = place_agents self (nat (num_predators self)) g1
      in ((mice, predators), g2))"

text \<open>Python's \<open>min(xs, key=f)\<close>: the first element of least key; ValueError on an
  empty sequence (\<open>None\<close> here).\<close>

fun min_by :: "('a \<Rightarrow> real) \<Rightarrow> 'a list \<Rightarrow> 'a option" where
  "min_by f [] = None"
| "min_by f (a # as) =
     (case min_by f as of
        None \<Rightarrow> Some a
      | Some b \<Rightarrow> if f b < f a then Some b else Some a)"

definition predator_behavior :: "agent \<Rightarrow> agent list \<Rightarrow> real \<times> real" where
  "predator_behavior predator mice =
     (case min_by (\<lambda>m. distance_to predator m) (filter alive mice) of
        None \<Rightarrow> (0, 0)
      | Some nearest_mouse \<Rightarrow>
          (let dx = agent_x nearest_mouse - agent_x predator;
               dy = agent_y nearest_mouse - agent_y predator;
               distance = sqrt (dx\<^sup>2 + dy\<^sup>2)
           in if distance > 0 then (dx / distance, dy / distance) else (0, 0)))"

definition clip_position :: "environment \<Rightarrow> real \<Rightarrow> real \<Rightarrow> real \<times> real" where
  "clip_position self x y = (max 0 (min (width self) x), max 0 (min (height self) y))"

text \<open>
  The \<open>state\<close> dictionary handed to the behavior function, and what a call of the
  behavior function does: it raises, or it returns a pair of numbers (\<open>Direction\<close>), or
  it returns something else (\<open>Malformed\<close>: not a pair, or not of numbers), on which the
  unpacking or the arithmetic of the \<open>try\<close> block raises TypeError or ValueError.
  A behavior may keep a state of its own between calls (a closure, a global, a mutated
  argument); it is passed in and returned.
\<close>

record sim_state =
  state_step :: int
  state_width :: real
  state_height :: real
  state_num_alive :: int

datatype call_result = Raises pyexc | Malformed | Direction real real

type_synonym 's behavior =
  "'s \<Rightarrow> sim_state \<Rightarrow> real \<times> real \<Rightarrow> real \<times> real \<Rightarrow> call_result \<times> 's"

text \<open>
  The body of \<open>for mouse in mice\<close> in \<open>run_simulation\<close>, for one mouse. The search for
  the nearest predator is outside the \<open>try\<close> block; \<open>except Exception\<close> catches what
  derives from \<open>Exception\<close> and nothing else. The result is the mouse, the state of the
  behavior and the two running totals.
\<close>

definition update_mouse ::
  "environment \<Rightarrow> 's behavior \<Rightarrow> sim_state \<Rightarrow> agent list \<Rightarrow> agent \<Rightarrow> 's \<Rightarrow> nat \<Rightarrow> real
     \<Rightarrow> pyexc + (agent \<times> 's \<times> nat \<times> real)" where
  "update_mouse self mouse_behavior state predators mouse bs total_survival_steps
       total_distance_score =
     (if \<not> alive mouse then Inr (mouse, bs, total_survival_steps, total_distance_score)
      else
        (case min_by (\<lambda>p. distance_to mouse p) predators of
           None \<Rightarrow> Inl ValueError_min
         | Some nearest_predator \<Rightarrow>
             (let mouse_pos = (agent_x mouse, agent_y mouse);
                  predator_pos = (agent_x nearest_predator, agent_y nearest_predator);
                  (result, bs') = mouse_behavior bs state mouse_pos predator_pos
              in case result of
                   Raises e \<Rightarrow>
                     if derives_Exception e
                     then Inr (mouse, bs', total_survival_steps + 1,
                               total_distance_score + distance_to mouse nearest_predator)
                     else Inl e
                 | Malformed \<Rightarrow>
                     Inr (mouse, bs', total_survival_steps + 1,
                          total_distance_score + distance_to mouse nearest_predator)
                 | Direction dx dy \<Rightarrow>
                     (let distance = sqrt (dx\<^sup>2 + dy\<^sup>2);
                          (dx, dy) = (if distance > 0
                                      then ((dx / distance) * mouse_speed self,
                                            (dy / distance) * mouse_speed self)
                                      else (dx, dy));
                          (x', y') = clip_position self (agent_x mouse + dx) (agent_y mouse + dy);
                          mouse = mouse\<lparr>agent_x := x', agent_y := y'\<rparr>
                      in Inr (mouse, bs', total_survival_steps + 1,
                              total_distance_score + distance_to mouse nearest_predator)))))"

fun update_mice ::
  "environment \<Rightarrow> 's behavior \<Rightarrow> sim_state \<Rightarrow> agent list \<Rightarrow> agent list \<Rightarrow> 's \<Rightarrow> nat \<Rightarrow> real
     \<Rightarrow> pyexc + (agent list \<times> 's \<times> nat \<times> real)" where
  "update_mice self mouse_behavior state predators [] bs tss tds = Inr ([], bs, tss, tds)"
| "update_mice self mouse_behavior state predators (mouse # mice) bs tss tds =
     (case update_mouse self mouse_behavior state predators mouse bs tss tds of
        Inl e \<Rightarrow> Inl e
      | Inr (mouse', bs', tss', tds') \<Rightarrow>
          (case update_mice self mouse_behavior state predators mice bs' tss' tds' of
             Inl e \<Rightarrow> Inl e
           | Inr (mice', r) \<Rightarrow> Inr (mouse' # mice', r)))"

text \<open>\<open>for predator in predators\<close>: move towards the nearest living mouse.\<close>

definition update_predator :: "environment \<Rightarrow> agent list \<Rightarrow> agent \<Rightarrow> agent" where
  "update_predator self mice predator =
     (let (dx, dy) = predator_behavior predator mice;
          (x', y') = clip_position self (agent_x predator + dx * predator_speed self)
                                        (agent_y predator + dy * predator_speed self)
      in predator\<lparr>agent_x := x', agent_y := y'\<rparr>)"

text \<open>The capture check: for each predator in turn, every living mouse closer than
  \<open>capture_distance\<close> dies.\<close>

definition capture :: "environment \<Rightarrow> agent \<Rightarrow> agent list \<Rightarrow> agent list" where
  "capture self predator mice =
     map (\<lambda>mouse. if alive mouse \<and> distance_to predator mouse < capture_distance self
                   then mouse\<lparr>alive := False\<rparr> else mouse) mice"

definition check_captures :: "environment \<Rightarrow> agent list \<Rightarrow> agent list \<Rightarrow> agent list" where
  "check_captures self predators mice = fold (capture self) predators mice"

text \<open>One pass of \<open>for step in range(self.max_steps)\<close>, without the \<open>break\<close>.\<close>

record 's trial =
  mice :: "agent list"
  predators :: "agent list"
  behavior_state :: 's
  total_survival_steps :: nat
  total_distance_score :: real

definition simulation_step ::
  "environment \<Rightarrow> 's behavior \<Rightarrow> int \<Rightarrow> 's trial \<Rightarrow> pyexc + 's trial" where
  "simulation_step self mouse_behavior step t =
     (let state = \<lparr>state_step = step, state_width = width self, state_height = height self,
                   state_num_alive = int (length (filter alive (mice t)))\<rparr>
      in case update_mice self mouse_behavior state (predators t) (mice t) (behavior_state t)
                (total_survival_steps t) (total_distance_score t) of
           Inl e \<Rightarrow> Inl e
         | Inr (mice', bs', tss', tds') \<Rightarrow>
             (let predators' = map (update_predator self mice') (predators t);
                  mice'' = check_captures self predators' mice'
              in Inr \<lparr>mice = mice'', predators = predators', behavior_state = bs',
                      total_survival_steps = tss', total_distance_score = tds'\<rparr>))"

text \<open>The loop over the steps, with its \<open>break\<close> when no mouse is alive.\<close>

fun run_steps ::
  "environment \<Rightarrow> 's behavior \<Rightarrow> int list \<Rightarrow> 's trial \<Rightarrow> pyexc + 's trial" where
  "run_steps self mouse_behavior [] t = Inr t"
| "run_steps self mouse_behavior (step # steps) t =
     (case simulation_step self mouse_behavior step t of
        Inl e \<Rightarrow> Inl e
      | Inr t' \<Rightarrow>
          if \<not> list_ex alive (mice t') then Inr t'
          else run_steps self mouse_behavior steps t')"

text \<open>
  The fitness computed after the loop. Each \<open>/\<close> raises ZeroDivisionError on a zero
  divisor.
\<close>

definition calculate_fitness :: "environment \<Rightarrow> 's trial \<Rightarrow> pyexc + real" where
  "calculate_fitness self t =
     (if num_mice self * max_steps self = 0 then Inl ZeroDivisionError
      else
        (let avg_survival = real (total_survival_steps t) / real_of_int (num_mice self * max_steps self);
             avg_distance = total_distance_score t / real (max 1 (total_survival_steps t))
         in if num_mice self = 0 then Inl ZeroDivisionError
            else
              (let final_alive = real (length (filter alive (mice t))) / real_of_int (num_mice self);
                   fitness' = (avg_survival * 100) + (avg_distance * 0.5) + (final_alive * 50)
               in Inr fitness')))"

text \<open>\<open>range(n)\<close>.\<close>

definition py_range :: "int \<Rightarrow> int list" where
  "py_range n = map int [0..<nat n]"

text \<open>
  \<open>run_simulation\<close>: the result is the fitness, with the state the behavior is left in
  and the rest of the random sequence, or the exception that leaves the method.
\<close>

definition run_simulation ::
  "environment \<Rightarrow> 's behavior \<Rightarrow> 's \<Rightarrow> rng \<Rightarrow> pyexc + (real \<times> 's \<times> rng)" where
  "run_simulation self mouse_behavior bs g =
     (let ((mice0, predators0), g') = initialize_agents self g;
          t0 = \<lparr>mice = mice0, predators = predators0, behavior_state = bs,
                total_survival_steps = 0, total_distance_score = 0\<rparr>
      in case run_steps self mouse_behavior (py_range (max_steps self)) t0 of
           Inl e \<Rightarrow> Inl e
         | Inr t \<Rightarrow>
             (case calculate_fitness self t of
                Inl e \<Rightarrow> Inl e
              | Inr fitness' \<Rightarrow> Inr (fitness', behavior_state t, g')))"

section \<open>core/evaluator.py\<close>

text \<open>
  What the Python interpreter does with a source text is a parameter of the model:
  \<open>py_exec src\<close> is the outcome of \<open>exec(src, {}, local_scope)\<close>, an exception or the
  names the text has bound in \<open>local_scope\<close>, each with the behavior that calling the
  bound object shows and the state it starts in (calling an object that is not callable
  raises TypeError); \<open>py_compile src\<close> is the exception of
  \<open>compile(src, '<string>', 'exec')\<close>, if it raises; \<open>format_exc e\<close> is the text of
  \<open>traceback.format_exc()\<close> while \<open>e\<close> is handled.
\<close>

record 's python =
  py_exec :: "string \<Rightarrow> pyexc + (string \<rightharpoonup> 's behavior \<times> 's)"
  py_compile :: "string \<Rightarrow> pyexc option"
  format_exc :: "pyexc \<Rightarrow> string"

text \<open>The loop \<open>for _ in range(num_trials)\<close> of \<open>evaluate\<close>, collecting the scores.\<close>

fun run_trials ::
  "environment \<Rightarrow> 's behavior \<Rightarrow> nat \<Rightarrow> 's \<Rightarrow> rng \<Rightarrow> pyexc + real list" where
  "run_trials env behavior_fn 0 bs g = Inr []"
| "run_trials env behavior_fn (Suc k) bs g =
     (case run_simulation env behavior_fn bs g of
        Inl e \<Rightarrow> Inl e
      | Inr (score, bs', g') \<Rightarrow>
          (case run_trials env behavior_fn k bs' g' of
             Inl e \<Rightarrow> Inl e
           | Inr scores \<Rightarrow> Inr (score # scores)))"

text \<open>Python's \<open>min\<close> and \<open>max\<close> of a list that is not empty.\<close>

definition py_min :: "real list \<Rightarrow> real" where
  "py_min xs = fold min (tl xs) (hd xs)"

definition py_max :: "real list \<Rightarrow> real" where
  "py_max xs = fold max (tl xs) (hd xs)"

text \<open>The body of the \<open>try\<close> block of \<open>Evaluator.evaluate\<close>.\<close>

definition evaluate_try ::
  "'s python \<Rightarrow> environment \<Rightarrow> string \<Rightarrow> int \<Rightarrow> rng \<Rightarrow> pyexc + (real \<times> metadata)" where
  "evaluate_try py env program_code num_trials g =
     (case py_exec py program_code of
        Inl e \<Rightarrow> Inl e
      | Inr local_scope \<Rightarrow>
          (case local_scope ''mice_behavior'' of
             None \<Rightarrow> Inr (- 1, [''error'' \<mapsto> MStr ''No mice_behavior function found''])
           | Some (behavior_fn, bs) \<Rightarrow>
               (case run_trials env behavior_fn (nat num_trials) bs g of
                  Inl e \<Rightarrow> Inl e
                | Inr scores \<Rightarrow>
                    if length scores = 0 then Inl ZeroDivisionError
                    else
                      (let avg_score = sum_list scores / real (length scores);
                           metadata' = [''trials'' \<mapsto> MInt num_trials,
                                        ''scores'' \<mapsto> MFloats scores,
                                        ''avg_score'' \<mapsto> MFloat avg_score,
                                        ''min_score'' \<mapsto> MFloat (py_min scores),
                                        ''max_score'' \<mapsto> MFloat (py_max scores)]
                       in Inr (avg_score, metadata')))))"

text \<open>
  \<open>Evaluator.evaluate\<close>: the \<open>try\<close> block under its handler \<open>except Exception as e\<close>.
  An exception that does not derive from \<open>Exception\<close> leaves the method.
\<close>

definition evaluate ::
  "'s python \<Rightarrow> environment \<Rightarrow> string \<Rightarrow> int \<Rightarrow> rng \<Rightarrow> pyexc + (real \<times> metadata)" where
  "evaluate py env program_code num_trials g =
     (case evaluate_try py env program_code num_trials g of
        Inl e \<Rightarrow>
          if derives_Exception e
          then Inr (- 1, [''error'' \<mapsto> MStr (exc_str e), ''traceback'' \<mapsto> MStr (format_exc py e)])
          else Inl e
      | Inr r \<Rightarrow> Inr r)"


section \<open>funsearch.py\<close>








section \<open>Notions used to state the properties\<close>

subsection \<open>The heap order and the loop invariants of the two sift procedures\<close>

text \<open>A list is a min-heap by fitness when no element is smaller than its parent, the
  parent of index \<open>i\<close> being index \<open>(i - 1) div 2\<close>.\<close>

definition is_heap :: "program list \<Rightarrow> bool" where
  "is_heap h = (\<forall>i. 0 < i \<and> i < length h \<longrightarrow> fitness (h ! ((i - 1) div 2)) \<le> fitness (h ! i))"

text \<open>While \<open>_siftdown\<close> runs, the list is a heap but for the hole at \<open>pos\<close>: the
  children of the hole are above its parent and above the item being placed.\<close>

definition down_inv :: "program list \<Rightarrow> nat \<Rightarrow> program \<Rightarrow> bool" where
  "down_inv h pos item =
     ((\<forall>i. 0 < i \<and> i < length h \<and> i \<noteq> pos \<longrightarrow> fitness (h ! ((i - 1) div 2)) \<le> fitness (h ! i)) \<and>
      (\<forall>c. 0 < c \<and> c < length h \<and> (c - 1) div 2 = pos \<and> 0 < pos \<longrightarrow>
           fitness (h ! ((pos - 1) div 2)) \<le> fitness (h ! c)) \<and>
      (\<forall>c. 0 < c \<and> c < length h \<and> (c - 1) div 2 = pos \<longrightarrow> fitness item \<le> fitness (h ! c)))"

text \<open>While the first loop of \<open>_siftup\<close> runs, the heap order holds everywhere but
  between the hole at \<open>pos\<close> and its children, which are above the parent of the hole.\<close>

definition up_inv :: "program list \<Rightarrow> nat \<Rightarrow> bool" where
  "up_inv h pos =
     ((\<forall>i. 0 < i \<and> i < length h \<and> (i - 1) div 2 \<noteq> pos \<longrightarrow> fitness (h ! ((i - 1) div 2)) \<le> fitness (h ! i)) \<and>
      (\<forall>c. 0 < c \<and> c < length h \<and> (c - 1) div 2 = pos \<and> 0 < pos \<longrightarrow>
           fitness (h ! ((pos - 1) div 2)) \<le> fitness (h ! c)))"

text \<open>The child that one pass of the first loop of \<open>_siftup\<close> moves up.\<close>

definition smaller_child :: "program list \<Rightarrow> nat \<Rightarrow> nat" where
  "smaller_child h pos =
     (if 2 * pos + 2 < length h \<and> \<not> program_lt (h ! (2 * pos + 1)) (h ! (2 * pos + 2))
      then 2 * pos + 2 else 2 * pos + 1)"

subsection \<open>Sequences of calls on a database\<close>

text \<open>The calls that change a database, and a database after a sequence of them. A call
  of \<open>add_program\<close> that raises leaves the database as it was at the raise, and the
  sequence goes on.\<close>

datatype db_call = AddProgram string real "metadata option" "int option" nat | IncrementGeneration

fun call_database :: "program_database \<Rightarrow> db_call \<Rightarrow> program_database" where
  "call_database db (AddProgram c f m pid now) = snd (add_program db c f m pid now)"
| "call_database db IncrementGeneration = increment_generation db"

fun run_calls :: "program_database \<Rightarrow> db_call list \<Rightarrow> program_database" where
  "run_calls db [] = db"
| "run_calls db (c # cs) = run_calls (call_database db c) cs"

text \<open>The fitness of \<open>get_best_program()\<close>; \<open>None\<close>, when there is no best program
  yet, is below every \<open>Some f\<close>.\<close>

definition best_fitness :: "program_database \<Rightarrow> real option" where
  "best_fitness db = map_option fitness (get_best_program db)"

text \<open>The \<open>Program\<close> object that \<open>add_program\<close> builds from its arguments.\<close>

definition new_program ::
  "program_database \<Rightarrow> string \<Rightarrow> real \<Rightarrow> metadata option \<Rightarrow> int option \<Rightarrow> nat \<Rightarrow> program" where
  "new_program self c f m pid now =
     \<lparr>code = c, fitness = f, metadata = (case m of None \<Rightarrow> Map.empty | Some m' \<Rightarrow> m'),
      timestamp = now, generation = db_generation self, parent_id = pid\<rparr>"

definition min_fitness :: "program list \<Rightarrow> real" where
  "min_fitness ps = Min (fitness ` set ps)"

text \<open>What holds of every database that calls have built from an empty one.\<close>

definition db_inv :: "program_database \<Rightarrow> bool" where
  "db_inv db = (is_heap (programs db) \<and> int (length (programs db)) \<le> max 0 (max_size db) \<and>
     (\<forall>p\<in>set (programs db). Some (fitness p) \<le> best_fitness db))"

text \<open>Three insertions, of fitness 5, 3 and 8.\<close>

definition example_calls :: "db_call list" where
  "example_calls = [AddProgram ''a'' 5 None None 0, AddProgram ''b'' 3 None None 1,
                    AddProgram ''c'' 8 None None 2]"

text \<open>Six insertions into a database of capacity 100.\<close>

definition six_calls :: "db_call list" where
  "six_calls = [AddProgram ''a'' 5 None None 0, AddProgram ''b'' 3 None None 1,
                AddProgram ''c'' 8 None None 2, AddProgram ''d'' 1 None None 3,
                AddProgram ''e'' 9 None None 4, AddProgram ''f'' 7 None None 5]"

subsection \<open>The course of a trial\<close>

text \<open>The trial at the start of the loop, as \<open>run_simulation\<close> sets it up.\<close>

definition initial_trial :: "environment \<Rightarrow> 's \<Rightarrow> rng \<Rightarrow> 's trial" where
  "initial_trial self bs g =
     \<lparr>mice = fst (fst (initialize_agents self g)), predators = snd (fst (initialize_agents self g)),
      behavior_state = bs, total_survival_steps = 0, total_distance_score = 0\<rparr>"





text \<open>The distance of a mouse that has moved to the predator that was nearest to it before
  it moved, and the sum of these distances over the mice alive at a step and over the steps.\<close>

definition nearest_distance :: "agent list \<Rightarrow> agent \<Rightarrow> agent \<Rightarrow> real" where
  "nearest_distance ps m m' =
     (case min_by (\<lambda>p. distance_to m p) ps of None \<Rightarrow> 0 | Some p \<Rightarrow> distance_to m' p)"

definition step_distance :: "'s trial \<Rightarrow> 's trial \<Rightarrow> real" where
  "step_distance a b =
     (\<Sum>(m, m')\<leftarrow>zip (mice a) (mice b). if alive m then nearest_distance (predators a) m m' else 0)"


text \<open>A behavior whose calls raise nothing but errors, that is, exceptions that derive from
  \<open>Exception\<close>.\<close>

definition raises_only_errors :: "'s behavior \<Rightarrow> bool" where
  "raises_only_errors beh =
     (\<forall>bs st mp pp e. fst (beh bs st mp pp) = Raises e \<longrightarrow> derives_Exception e)"




subsection \<open>Concrete trials and interpreters\<close>

text \<open>An environment with one mouse and one predator, run for one step.\<close>

definition example_env :: environment where
  "example_env = \<lparr>width = 100, height = 100, num_mice = 1, num_predators = 1, max_steps = 1,
                    predator_speed = 3 / 2, mouse_speed = 1, capture_distance = 2\<rparr>"

text \<open>A random sequence that places the mouse at (0, 0) and the predator at (50, 0).\<close>

definition example_rng :: rng where
  "example_rng i = (if i = 2 then 1 / 2 else 0)"

text \<open>A behavior that always returns \<open>(1, 0)\<close>, and one that always raises ValueError.\<close>

definition moving_behavior :: "unit behavior" where
  "moving_behavior bs st mp pp = (Direction 1 0, bs)"


text \<open>The trial of the moving behavior after its one step.\<close>

definition example_final :: "unit trial" where
  "example_final = \<lparr>mice = [\<lparr>agent_x = 1, agent_y = 0, alive = True\<rparr>],
          predators = [\<lparr>agent_x = 97 / 2, agent_y = 0, alive = True\<rparr>],
          behavior_state = (), total_survival_steps = 1, total_distance_score = 49\<rparr>"









section \<open>The heap operations keep the heap order\<close>

lemma heap_root_le:
  assumes "is_heap h" "i < length h"
  shows "fitness (h ! 0) \<le> fitness (h ! i)"
  using assms(2)
proof (induction i rule: less_induct)
  case (less i)
  show ?case
  proof (cases "i = 0")
    case True then show ?thesis by simp
  next
    case False
    then have lt: "(i - 1) div 2 < i" by arith
    then have "fitness (h ! 0) \<le> fitness (h ! ((i - 1) div 2))"
      using less by simp
    moreover have "fitness (h ! ((i - 1) div 2)) \<le> fitness (h ! i)"
      using assms(1) False less.prems by (simp add: is_heap_def)
    ultimately show ?thesis by simp
  qed
qed

lemma siftdown_loop_unfold:
  "siftdown_loop h item 0 pos =
     (if 0 < pos \<and> program_lt item (h ! ((pos - 1) div 2))
      then siftdown_loop (h[pos := h ! ((pos - 1) div 2)]) item 0 ((pos - 1) div 2)
      else (h, pos))"
  by (subst siftdown_loop.simps) (simp add: Let_def)

lemma siftdown_loop_length:
  "siftdown_loop h item 0 pos = (h', p') \<Longrightarrow> length h' = length h \<and> p' \<le> pos"
proof (induction h item "0::nat" pos arbitrary: h' p' rule: siftdown_loop.induct)
  case (1 heap newitem pos)
  show ?case
  proof (cases "pos > 0 \<and> program_lt newitem (heap ! ((pos - 1) div 2))")
    case True
    then have "siftdown_loop (heap[pos := heap ! ((pos - 1) div 2)]) newitem 0 ((pos - 1) div 2) = (h', p')"
      using "1.prems" siftdown_loop_unfold[of heap newitem pos] by simp
    from "1.hyps"[OF _ refl refl _ this] True show ?thesis by auto
  next
    case False
    then show ?thesis using "1.prems" siftdown_loop_unfold[of heap newitem pos] by auto
  qed
qed

lemma siftdown_loop_mset:
  "siftdown_loop h item 0 pos = (h', p') \<Longrightarrow> pos < length h \<Longrightarrow>
   mset (h'[p' := item]) = mset (h[pos := item])"
proof (induction h item "0::nat" pos arbitrary: h' p' rule: siftdown_loop.induct)
  case (1 heap newitem pos)
  show ?case
  proof (cases "pos > 0 \<and> program_lt newitem (heap ! ((pos - 1) div 2))")
    case True
    let ?pp = "(pos - 1) div 2"
    have pp: "?pp < pos" using True by arith
    have rec: "siftdown_loop (heap[pos := heap ! ?pp]) newitem 0 ?pp = (h', p')"
      using "1.prems" True siftdown_loop_unfold[of heap newitem pos] by simp
    have "mset (h'[p' := newitem]) = mset (heap[pos := heap ! ?pp, ?pp := newitem])"
      using "1.hyps"[OF _ refl refl _ rec] True pp "1.prems"(2) by simp
    also have "\<dots> = mset (heap[pos := newitem])"
    proof -
      let ?l = "heap[pos := newitem]"
      have "mset (?l[?pp := ?l ! pos, pos := ?l ! ?pp]) = mset ?l"
        using pp "1.prems"(2) by (intro mset_swap) auto
      moreover have "?l[?pp := ?l ! pos, pos := ?l ! ?pp] = heap[pos := heap ! ?pp, ?pp := newitem]"
        using pp "1.prems"(2) by (auto simp: list_eq_iff_nth_eq nth_list_update)
      ultimately show ?thesis by simp
    qed
    finally show ?thesis .
  next
    case False
    then show ?thesis using "1.prems" siftdown_loop_unfold[of heap newitem pos] by auto
  qed
qed

lemma siftdown_loop_heap:
  "siftdown_loop h item 0 pos = (h', p') \<Longrightarrow> pos < length h \<Longrightarrow> down_inv h pos item \<Longrightarrow>
   is_heap (h'[p' := item])"
proof (induction h item "0::nat" pos arbitrary: h' p' rule: siftdown_loop.induct)
  case (1 heap newitem pos)
  let ?pp = "(pos - 1) div 2"
  show ?case
  proof (cases "pos > 0 \<and> program_lt newitem (heap ! ?pp)")
    case True
    have pp: "?pp < pos" using True by arith
    let ?h = "heap[pos := heap ! ?pp]"
    have rec: "siftdown_loop ?h newitem 0 ?pp = (h', p')"
      using "1.prems" True siftdown_loop_unfold[of heap newitem pos] by simp
    have lt: "fitness newitem < fitness (heap ! ?pp)"
      using True by (simp add: program_lt_def)
    have I1: "\<And>i. 0 < i \<Longrightarrow> i < length heap \<Longrightarrow> i \<noteq> pos \<Longrightarrow> fitness (heap ! ((i - 1) div 2)) \<le> fitness (heap ! i)"
      using "1.prems"(3) by (simp add: down_inv_def)
    have I2: "\<And>c. 0 < c \<Longrightarrow> c < length heap \<Longrightarrow> (c - 1) div 2 = pos \<Longrightarrow> 
           fitness (heap ! ?pp) \<le> fitness (heap ! c)"
      using "1.prems"(3) True by (simp add: down_inv_def)
    have inv': "down_inv ?h ?pp newitem"
      unfolding down_inv_def
    proof (intro conjI allI impI)
      fix i assume a: "0 < i \<and> i < length ?h \<and> i \<noteq> ?pp"
      show "fitness (?h ! ((i - 1) div 2)) \<le> fitness (?h ! i)"
      proof (cases "i = pos")
        case True
        then show ?thesis using a pp "1.prems"(2) by simp
      next
        case ip: False
        show ?thesis
        proof (cases "(i - 1) div 2 = pos")
          case True
          then show ?thesis using a ip I2[of i] "1.prems"(2) by simp
        next
          case False
          then show ?thesis using a ip I1[of i] by simp
        qed
      qed
    next
      fix c assume a: "0 < c \<and> c < length ?h \<and> (c - 1) div 2 = ?pp \<and> 0 < ?pp"
      have ppp: "(?pp - 1) div 2 \<noteq> pos" using pp by arith
      have g: "fitness (heap ! ((?pp - 1) div 2)) \<le> fitness (heap ! ?pp)"
        using I1[of ?pp] a pp "1.prems"(2) by simp
      show "fitness (?h ! ((?pp - 1) div 2)) \<le> fitness (?h ! c)"
      proof (cases "c = pos")
        case True
        then show ?thesis using g ppp "1.prems"(2) by simp
      next
        case False
        then have "fitness (heap ! ?pp) \<le> fitness (heap ! c)" using I1[of c] a by simp
        then show ?thesis using g ppp False by simp
      qed
    next
      fix c assume a: "0 < c \<and> c < length ?h \<and> (c - 1) div 2 = ?pp"
      show "fitness newitem \<le> fitness (?h ! c)"
      proof (cases "c = pos")
        case True
        then show ?thesis using lt "1.prems"(2) by simp
      next
        case False
        then have "fitness (heap ! ?pp) \<le> fitness (heap ! c)" using I1[of c] a by simp
        then show ?thesis using lt False by simp
      qed
    qed
    show ?thesis
      using "1.hyps"[OF _ refl refl _ rec _ inv'] True pp "1.prems"(2) by simp
  next
    case False
    then have eq: "h' = heap" "p' = pos" using "1.prems"(1) siftdown_loop_unfold[of heap newitem pos] by auto
    have I1: "\<And>i. 0 < i \<Longrightarrow> i < length heap \<Longrightarrow> i \<noteq> pos \<Longrightarrow> fitness (heap ! ((i - 1) div 2)) \<le> fitness (heap ! i)"
      using "1.prems"(3) by (simp add: down_inv_def)
    have I3: "\<And>c. 0 < c \<Longrightarrow> c < length heap \<Longrightarrow> (c - 1) div 2 = pos \<Longrightarrow> fitness newitem \<le> fitness (heap ! c)"
      using "1.prems"(3) by (simp add: down_inv_def)
    show ?thesis unfolding eq is_heap_def
    proof (intro allI impI)
      fix i assume a: "0 < i \<and> i < length (heap[pos := newitem])"
      then have pi: "(i - 1) div 2 < i" by arith
      show "fitness (heap[pos := newitem] ! ((i - 1) div 2)) \<le> fitness (heap[pos := newitem] ! i)"
      proof (cases "i = pos")
        case True
        then show ?thesis using a pi False by (simp add: program_lt_def)
      next
        case ip: False
        show ?thesis
        proof (cases "(i - 1) div 2 = pos")
          case True
          then show ?thesis using a ip I3[of i] "1.prems"(2) by simp
        next
          case False
          then show ?thesis using a ip I1[of i] by simp
        qed
      qed
    qed
  qed
qed


lemma siftup_loop_unfold:
  "siftup_loop h (length h) pos =
     (if 2 * pos + 1 < length h
      then siftup_loop (h[pos := h ! smaller_child h pos]) (length h) (smaller_child h pos)
      else (h, pos))"
  by (subst siftup_loop.simps) (simp add: Let_def smaller_child_def)

lemma smaller_child_props:
  assumes "2 * pos + 1 < length h"
  shows "smaller_child h pos < length h" "pos < smaller_child h pos"
    "(smaller_child h pos - 1) div 2 = pos"
    "\<And>c. 0 < c \<Longrightarrow> c < length h \<Longrightarrow> (c - 1) div 2 = pos \<Longrightarrow>
       fitness (h ! smaller_child h pos) \<le> fitness (h ! c)"
proof -
  show "smaller_child h pos < length h" using assms by (simp add: smaller_child_def)
  show "pos < smaller_child h pos" by (simp add: smaller_child_def)
  show "(smaller_child h pos - 1) div 2 = pos" by (simp add: smaller_child_def)
  fix c assume c: "0 < c" "c < length h" "(c - 1) div 2 = pos"
  then have "c = 2 * pos + 1 \<or> c = 2 * pos + 2" by arith
  then show "fitness (h ! smaller_child h pos) \<le> fitness (h ! c)"
    using c by (auto simp: smaller_child_def program_lt_def)
qed

lemma siftup_loop_props:
  "siftup_loop h n pos = (h', p') \<Longrightarrow> n = length h \<Longrightarrow> pos < length h \<Longrightarrow>
   length h' = length h \<and> p' < length h \<and> length h \<le> 2 * p' + 1 \<and>
   mset (h'[p' := item]) = mset (h[pos := item]) \<and>
   (up_inv h pos \<longrightarrow> is_heap h')"
proof (induction h n pos arbitrary: h' p' rule: siftup_loop.induct)
  case (1 heap endpos pos)
  show ?case
  proof (cases "2 * pos + 1 < length heap")
    case True
    let ?c = "smaller_child heap pos"
    let ?h = "heap[pos := heap ! ?c]"
    note sc = smaller_child_props[OF True]
    have rec: "siftup_loop ?h (length ?h) ?c = (h', p')"
      using "1.prems" True siftup_loop_unfold[of heap pos] by simp
    have sc_eq: "?c = (if 2 * pos + 1 + 1 < endpos \<and> \<not> program_lt (heap ! (2 * pos + 1)) (heap ! (2 * pos + 1 + 1))
                       then 2 * pos + 1 + 1 else 2 * pos + 1)"
      using "1.prems"(2) by (simp add: smaller_child_def)
    have IH: "length h' = length ?h \<and> p' < length ?h \<and> length ?h \<le> 2 * p' + 1 \<and>
       mset (h'[p' := item]) = mset (?h[?c := item]) \<and> (up_inv ?h ?c \<longrightarrow> is_heap h')"
      using "1.IH"[OF refl _ refl refl, of h' p'] rec True sc(1) "1.prems"(2) unfolding sc_eq[symmetric]
      by simp
    have ms: "mset (?h[?c := item]) = mset (heap[pos := item])"
    proof -
      let ?l = "heap[pos := item]"
      have "mset (?l[?c := ?l ! pos, pos := ?l ! ?c]) = mset ?l"
        using sc "1.prems"(3) by (intro mset_swap) auto
      moreover have "?l[?c := ?l ! pos, pos := ?l ! ?c] = ?h[?c := item]"
        using sc "1.prems"(3) by (auto simp: list_eq_iff_nth_eq nth_list_update)
      ultimately show ?thesis by simp
    qed
    have inv: "up_inv ?h ?c" if U: "up_inv heap pos"
    proof -
      have J1: "\<And>i. 0 < i \<Longrightarrow> i < length heap \<Longrightarrow> (i - 1) div 2 \<noteq> pos \<Longrightarrow>
                  fitness (heap ! ((i - 1) div 2)) \<le> fitness (heap ! i)"
        using U by (simp add: up_inv_def)
      have J2: "\<And>c. 0 < c \<Longrightarrow> c < length heap \<Longrightarrow> (c - 1) div 2 = pos \<Longrightarrow> 0 < pos \<Longrightarrow>
                  fitness (heap ! ((pos - 1) div 2)) \<le> fitness (heap ! c)"
        using U by (simp add: up_inv_def)
      show ?thesis unfolding up_inv_def
      proof (intro conjI allI impI)
        fix i assume a: "0 < i \<and> i < length ?h \<and> (i - 1) div 2 \<noteq> ?c"
        show "fitness (?h ! ((i - 1) div 2)) \<le> fitness (?h ! i)"
        proof (cases "i = pos")
          case True
          then have "(i - 1) div 2 \<noteq> pos" using a by arith
          then show ?thesis using True a J2[of ?c] sc "1.prems"(3) by simp
        next
          case ip: False
          show ?thesis
          proof (cases "(i - 1) div 2 = pos")
            case True
            then show ?thesis using a ip sc(4)[of i] "1.prems"(3) by simp
          next
            case False
            then show ?thesis using a ip J1[of i] by simp
          qed
        qed
      next
        fix c assume a: "0 < c \<and> c < length ?h \<and> (c - 1) div 2 = ?c \<and> 0 < ?c"
        then have cp: "c \<noteq> pos" "(c - 1) div 2 \<noteq> pos" using sc(2) by arith+
        then have "fitness (heap ! ?c) \<le> fitness (heap ! c)" using J1[of c] a by simp
        then show "fitness (?h ! ((?c - 1) div 2)) \<le> fitness (?h ! c)"
          using cp sc "1.prems"(3) by simp
      qed
    qed
    show ?thesis using IH ms inv by simp
  next
    case False
    then have eq: "h' = heap" "p' = pos"
      using "1.prems" siftup_loop_unfold[of heap pos] by auto
    have "is_heap heap" if U: "up_inv heap pos"
      unfolding is_heap_def
    proof (intro allI impI)
      fix i assume a: "0 < i \<and> i < length heap"
      then have "(i - 1) div 2 \<noteq> pos" using False by arith
      then show "fitness (heap ! ((i - 1) div 2)) \<le> fitness (heap ! i)"
        using U a by (simp add: up_inv_def)
    qed
    then show ?thesis using eq False "1.prems" by simp
  qed
qed

lemma siftdown_props:
  assumes "pos < length h" "down_inv h pos (h ! pos)"
  shows "is_heap (siftdown h 0 pos)" "mset (siftdown h 0 pos) = mset h"
    "length (siftdown h 0 pos) = length h"
proof -
  obtain h' p' where r: "siftdown_loop h (h ! pos) 0 pos = (h', p')" by fastforce
  have s: "siftdown h 0 pos = h'[p' := h ! pos]" by (simp add: siftdown_def r)
  show "is_heap (siftdown h 0 pos)" using siftdown_loop_heap[OF r assms] s by simp
  show "mset (siftdown h 0 pos) = mset h" using siftdown_loop_mset[OF r assms(1)] s by simp
  show "length (siftdown h 0 pos) = length h" using siftdown_loop_length[OF r] s by simp
qed

lemma heappush_props:
  assumes "is_heap h"
  shows "is_heap (heappush h p)" "mset (heappush h p) = add_mset p (mset h)"
    "length (heappush h p) = Suc (length h)"
proof -
  let ?h = "h @ [p]"
  have inv: "down_inv ?h (length h) (?h ! length h)"
    unfolding down_inv_def
  proof (intro conjI allI impI)
    fix i assume a: "0 < i \<and> i < length ?h \<and> i \<noteq> length h"
    then have "i < length h" "(i - 1) div 2 < length h" by auto
    then show "fitness (?h ! ((i - 1) div 2)) \<le> fitness (?h ! i)"
      using assms a by (simp add: is_heap_def nth_append)
  next
    fix c assume "0 < c \<and> c < length ?h \<and> (c - 1) div 2 = length h \<and> 0 < length h"
    then have False by auto
    then show "fitness (?h ! ((length h - 1) div 2)) \<le> fitness (?h ! c)" ..
  next
    fix c assume "0 < c \<and> c < length ?h \<and> (c - 1) div 2 = length h"
    then have False by auto
    then show "fitness (?h ! length h) \<le> fitness (?h ! c)" ..
  qed
  have l: "length h < length ?h" by simp
  show "is_heap (heappush h p)" using siftdown_props(1)[OF l inv] by (simp add: heappush_def)
  show "mset (heappush h p) = add_mset p (mset h)"
    using siftdown_props(2)[OF l inv] by (simp add: heappush_def)
  show "length (heappush h p) = Suc (length h)"
    using siftdown_props(3)[OF l inv] by (simp add: heappush_def)
qed

lemma siftup_props:
  assumes "h \<noteq> []" "up_inv h 0"
  shows "is_heap (siftup h 0)" "mset (siftup h 0) = mset h" "length (siftup h 0) = length h"
proof -
  have l: "0 < length h" using assms(1) by simp
  obtain h' p' where r: "siftup_loop h (length h) 0 = (h', p')" by fastforce
  note P = siftup_loop_props[OF r refl l, of "h ! 0"]
  let ?g = "h'[p' := h ! 0]"
  have s: "siftup h 0 = siftdown ?g 0 p'" by (simp add: siftup_def r)
  have pl: "p' < length ?g" using P by simp
  have hp: "is_heap h'" using P assms(2) by simp
  have inv: "down_inv ?g p' (?g ! p')"
    unfolding down_inv_def
  proof (intro conjI allI impI)
    fix i assume a: "0 < i \<and> i < length ?g \<and> i \<noteq> p'"
    then have "(i - 1) div 2 \<noteq> p'" using P by auto
    then show "fitness (?g ! ((i - 1) div 2)) \<le> fitness (?g ! i)"
      using hp a by (simp add: is_heap_def)
  next
    fix c assume "0 < c \<and> c < length ?g \<and> (c - 1) div 2 = p' \<and> 0 < p'"
    then have False using P by auto
    then show "fitness (?g ! ((p' - 1) div 2)) \<le> fitness (?g ! c)" ..
  next
    fix c assume "0 < c \<and> c < length ?g \<and> (c - 1) div 2 = p'"
    then have False using P by auto
    then show "fitness (?g ! p') \<le> fitness (?g ! c)" ..
  qed
  show "is_heap (siftup h 0)" using siftdown_props(1)[OF pl inv] s by simp
  have "mset ?g = mset h" using P by simp
  then show "mset (siftup h 0) = mset h" using siftdown_props(2)[OF pl inv] s by simp
  show "length (siftup h 0) = length h" using siftdown_props(3)[OF pl inv] s P by simp
qed

lemma heapreplace_props:
  assumes "is_heap h" "h \<noteq> []"
  shows "\<exists>h'. heapreplace h p = Inr (h ! 0, h') \<and> is_heap h' \<and>
           mset h' = add_mset p (mset h - {#h ! 0#}) \<and> length h' = length h"
proof -
  obtain a t where h: "h = a # t" using assms(2) by (cases h) auto
  let ?g = "h[0 := p]"
  have ne: "?g \<noteq> []" using assms(2) by simp
  have inv: "up_inv ?g 0"
    unfolding up_inv_def
  proof (intro conjI allI impI)
    fix i assume a: "0 < i \<and> i < length ?g \<and> (i - 1) div 2 \<noteq> 0"
    then show "fitness (?g ! ((i - 1) div 2)) \<le> fitness (?g ! i)"
      using assms(1) by (simp add: is_heap_def)
  qed simp
  have "mset ?g = add_mset p (mset h - {#h ! 0#})"
    using assms(2) by (simp add: mset_update)
  then show ?thesis
    using siftup_props[OF ne inv] h by (simp add: heapreplace_def)
qed


section \<open>The invariant of the database\<close>

lemma add_program_best:
  "best_program (snd (add_program db c f m pid now)) =
     (if (case best_program db of None \<Rightarrow> True | Some b \<Rightarrow> f > fitness b)
      then Some (new_program db c f m pid now) else best_program db)"
  by (auto simp: add_program_def new_program_def Let_def heapreplace_def split: list.splits sum.splits prod.splits)

lemma add_program_best_fitness:
  "best_fitness (snd (add_program db c f m pid now)) = max (best_fitness db) (Some f)"
  by (cases "best_program db")
     (auto simp: best_fitness_def get_best_program_def add_program_best new_program_def max_def)

lemma add_program_fields:
  "max_size (snd (add_program db c f m pid now)) = max_size db"
  "db_generation (snd (add_program db c f m pid now)) = db_generation db"
  by (auto simp: add_program_def Let_def heapreplace_def split: list.splits sum.splits prod.splits)

lemma heap_min_fitness:
  assumes "is_heap h" "h \<noteq> []"
  shows "fitness (h ! 0) = min_fitness h"
proof -
  have "fitness (h ! 0) \<in> fitness ` set h" using assms(2) by (cases h) auto
  moreover have "\<forall>v \<in> fitness ` set h. fitness (h ! 0) \<le> v"
    using heap_root_le[OF assms(1)] by (auto simp: in_set_conv_nth)
  ultimately show ?thesis unfolding min_fitness_def
    by (intro Min_eqI[symmetric]) auto
qed

lemma add_program_below:
  assumes "int (length (programs db)) < max_size db"
  shows "add_program db c f m pid now =
     (Inr True, (snd (add_program db c f m pid now))) \<and>
     programs (snd (add_program db c f m pid now)) = heappush (programs db) (new_program db c f m pid now)"
  using assms by (auto simp: add_program_def new_program_def Let_def)

lemma add_program_full:
  assumes "\<not> int (length (programs db)) < max_size db" "programs db \<noteq> []"
  shows "f > fitness (programs db ! 0) \<Longrightarrow>
           fst (add_program db c f m pid now) = Inr True \<and>
           heapreplace (programs db) (new_program db c f m pid now) =
             Inr (programs db ! 0, programs (snd (add_program db c f m pid now)))"
        "\<not> f > fitness (programs db ! 0) \<Longrightarrow>
           fst (add_program db c f m pid now) = Inr False \<and>
           programs (snd (add_program db c f m pid now)) = programs db"
  using assms
  by (auto simp: add_program_def new_program_def Let_def heapreplace_def split: list.splits)

lemma add_program_empty_full:
  assumes "\<not> int (length (programs db)) < max_size db" "programs db = []"
  shows "fst (add_program db c f m pid now) = Inl IndexError"
    "programs (snd (add_program db c f m pid now)) = []"
  using assms by (auto simp: add_program_def Let_def)

lemma db_inv_add:
  assumes "db_inv db"
  shows "db_inv (snd (add_program db c f m pid now))"
proof -
  let ?db' = "snd (add_program db c f m pid now)"
  let ?p = "new_program db c f m pid now"
  have hp: "is_heap (programs db)" and len: "int (length (programs db)) \<le> max 0 (max_size db)"
    and best: "\<And>p. p \<in> set (programs db) \<Longrightarrow> Some (fitness p) \<le> best_fitness db"
    using assms by (auto simp: db_inv_def)
  have bf: "best_fitness ?db' = max (best_fitness db) (Some f)" by (rule add_program_best_fitness)
  have fp: "fitness ?p = f" by (simp add: new_program_def)
  have old: "\<And>p. p \<in> set (programs db) \<Longrightarrow> Some (fitness p) \<le> best_fitness ?db'"
    using best bf by (simp add: le_max_iff_disj)
  have new: "Some (fitness ?p) \<le> best_fitness ?db'" using bf fp by simp
  show ?thesis
  proof (cases "int (length (programs db)) < max_size db")
    case True
    then have pr: "programs ?db' = heappush (programs db) ?p" using add_program_below by blast
    have "set (programs ?db') = insert ?p (set (programs db))"
      using heappush_props(2)[OF hp, of ?p] pr by (metis set_mset_add_mset_insert set_mset_mset)
    then show ?thesis using True pr heappush_props[OF hp, of ?p] old new
      by (auto simp: db_inv_def add_program_fields)
  next
    case full: False
    show ?thesis
    proof (cases "programs db = []")
      case True
      then show ?thesis using add_program_empty_full[OF full True] len
        by (simp add: db_inv_def add_program_fields is_heap_def)
    next
      case ne: False
      show ?thesis
      proof (cases "f > fitness (programs db ! 0)")
        case True
        from heapreplace_props[OF hp ne, of ?p] add_program_full(1)[OF full ne True]
        have h': "is_heap (programs ?db')"
          "mset (programs ?db') = add_mset ?p (mset (programs db) - {#programs db ! 0#})"
          "length (programs ?db') = length (programs db)" by auto
        have "set (programs ?db') \<subseteq> insert ?p (set (programs db))"
        proof
          fix q assume "q \<in> set (programs ?db')"
          then have "q \<in># add_mset ?p (mset (programs db) - {#programs db ! 0#})"
            using h'(2) by (metis set_mset_mset)
          then show "q \<in> insert ?p (set (programs db))"
            by (auto dest: in_diffD)
        qed
        then show ?thesis using h' len old new
          by (auto simp: db_inv_def add_program_fields)
      next
        case False
        then show ?thesis using add_program_full(2)[OF full ne False] hp len old
          by (simp add: db_inv_def add_program_fields)
      qed
    qed
  qed
qed

lemma db_inv_init: "db_inv (init_database n)"
  by (simp add: db_inv_def init_database_def is_heap_def)

lemma db_inv_call: "db_inv db \<Longrightarrow> db_inv (call_database db c)"
proof (cases c)
  case (AddProgram c f m pid now)
  assume "db_inv db"
  then show ?thesis using AddProgram db_inv_add by simp
next
  case IncrementGeneration
  assume "db_inv db"
  then show ?thesis using IncrementGeneration
    by (simp add: db_inv_def increment_generation_def best_fitness_def get_best_program_def)
qed

lemma db_inv_run: "db_inv db \<Longrightarrow> db_inv (run_calls db cs)"
  by (induction cs arbitrary: db) (auto simp: db_inv_call)

lemma max_size_run: "max_size (run_calls db cs) = max_size db"
proof (induction cs arbitrary: db)
  case (Cons c cs)
  then show ?case by (cases c) (simp_all add: add_program_fields increment_generation_def)
qed simp

lemma best_fitness_call: "best_fitness db \<le> best_fitness (call_database db c)"
proof (cases c)
  case (AddProgram c f m pid now)
  then show ?thesis by (simp add: add_program_best_fitness)
next
  case IncrementGeneration
  then show ?thesis
    by (simp add: increment_generation_def best_fitness_def get_best_program_def)
qed

lemma best_fitness_run: "best_fitness db \<le> best_fitness (run_calls db cs)"
proof (induction cs arbitrary: db)
  case (Cons c cs)
  show ?case using best_fitness_call[of db c] Cons[of "call_database db c"] by simp
qed simp

lemma run_calls_append: "run_calls db (cs @ ds) = run_calls (run_calls db cs) ds"
  by (induction cs arbitrary: db) auto


section \<open>The best program ever seen (C1)\<close>

text \<open>Unfolding the operations on concrete databases.\<close>

lemmas eval_db = init_database_def add_program_def heappush_def heapreplace_def siftdown_def siftup_def
  siftdown_loop.simps siftup_loop.simps program_lt_def Let_def increment_generation_def

text \<open>
  Claim C1. Along every sequence of calls the fitness of \<open>get_best_program()\<close> never
  decreases; in every database built from an empty one it is at least the fitness of each
  stored program; and a call of \<open>add_program\<close> raises it to the new fitness whenever
  that is strictly greater, with the new program as the best one, whatever the call
  returns or raises, so also when the program is not stored.
\<close>

theorem best_program_tracking:
  "best_fitness (run_calls db cs) \<le> best_fitness (run_calls db (cs @ ds)) \<and>
   (\<forall>p\<in>set (programs (run_calls (init_database n) cs)).
       Some (fitness p) \<le> best_fitness (run_calls (init_database n) cs)) \<and>
   best_fitness (snd (add_program db c f m pid now)) = max (best_fitness db) (Some f) \<and>
   (best_fitness db < Some f \<longrightarrow>
      get_best_program (snd (add_program db c f m pid now)) = Some (new_program db c f m pid now))"
proof (intro conjI)
  show "best_fitness (run_calls db cs) \<le> best_fitness (run_calls db (cs @ ds))"
    by (simp add: run_calls_append best_fitness_run)
  have "db_inv (run_calls (init_database n) cs)"
    by (rule db_inv_run[OF db_inv_init])
  then show "\<forall>p\<in>set (programs (run_calls (init_database n) cs)).
       Some (fitness p) \<le> best_fitness (run_calls (init_database n) cs)"
    by (simp add: db_inv_def)
  show "best_fitness (snd (add_program db c f m pid now)) = max (best_fitness db) (Some f)"
    by (rule add_program_best_fitness)
  show "best_fitness db < Some f \<longrightarrow>
      get_best_program (snd (add_program db c f m pid now)) = Some (new_program db c f m pid now)"
    by (cases "best_program db")
       (auto simp: best_fitness_def get_best_program_def add_program_best)
qed

lemma example_best_before: "best_fitness (run_calls (init_database 3) example_calls) = Some 8"
  by (simp add: example_calls_def eval_db best_fitness_def get_best_program_def)

lemma example_best_after: "best_fitness (run_calls (init_database 3)
      (example_calls @ [AddProgram ''d'' 1 None None 3, AddProgram ''e'' 9 None None 4])) = Some 9"
  by (simp add: example_calls_def eval_db best_fitness_def get_best_program_def)

lemma example_fitnesses: "map fitness (programs (run_calls (init_database 3) example_calls)) = [3, 5, 8]"
  by (simp add: example_calls_def eval_db)

lemma example_zero_capacity:
  "fst (add_program (init_database 0) ''a'' 5 None None 0) = Inl IndexError"
  "best_fitness (init_database 0) = None"
  by (simp_all add: eval_db best_fitness_def get_best_program_def)

theorem best_program_tracking_witness:
  "best_fitness (run_calls (init_database 3) example_calls) = Some 8 \<and>
   best_fitness (run_calls (init_database 3)
      (example_calls @ [AddProgram ''d'' 1 None None 3, AddProgram ''e'' 9 None None 4])) = Some 9 \<and>
   map fitness (programs (run_calls (init_database 3) example_calls)) = [3, 5, 8] \<and>
   best_fitness (init_database 0) < Some 5 \<and>
   fst (add_program (init_database 0) ''a'' 5 None None 0) = Inl IndexError \<and>
   best_fitness (snd (add_program (init_database 0) ''a'' 5 None None 0)) = Some 5 \<and>
   get_best_program (snd (add_program (init_database 0) ''a'' 5 None None 0)) =
     Some (new_program (init_database 0) ''a'' 5 None None 0)"
  using best_program_tracking[of "init_database 3" example_calls
          "[AddProgram ''d'' 1 None None 3, AddProgram ''e'' 9 None None 4]" 3
          "''a''" 5 None None 0]
        best_program_tracking[of "init_database 0" "[]" "[]" 0 "''a''" 5 None None 0]
  by (simp add: example_best_before example_best_after example_fitnesses example_zero_capacity)


section \<open>Acceptance and eviction (C2)\<close>

lemma length_run_calls_le:
  "int (length (programs (run_calls (init_database n) cs))) \<le> max 0 n"
  using db_inv_run[OF db_inv_init, of n cs] by (simp add: db_inv_def max_size_run init_database_def)

text \<open>
  What \<open>add_program\<close> does on a database of positive capacity built by calls from an
  empty one. The database is below or at capacity. Below capacity the program is stored
  and \<open>True\<close> is returned. At capacity, a program whose fitness strictly exceeds the
  minimum fitness stored replaces a stored program of minimum fitness and \<open>True\<close> is
  returned, and no program stored afterwards is below the evicted one; any other program is
  refused: \<open>False\<close> is returned and the stored programs are unchanged. After a call on a
  database at capacity the database is still at capacity.
\<close>

theorem add_program_acceptance:
  assumes "0 < n"
    and "db = run_calls (init_database n) cs"
    and "add_program db c f m pid now = (r, db')"
  shows "(int (length (programs db)) < max_size db \<or> int (length (programs db)) = max_size db) \<and>
    (int (length (programs db)) < max_size db \<longrightarrow>
       r = Inr True \<and>
       mset (programs db') = add_mset (new_program db c f m pid now) (mset (programs db))) \<and>
    (int (length (programs db)) = max_size db \<and> min_fitness (programs db) < f \<longrightarrow>
       r = Inr True \<and>
       (\<exists>w\<in>set (programs db). fitness w = min_fitness (programs db) \<and>
          mset (programs db') = add_mset (new_program db c f m pid now) (mset (programs db) - {#w#}) \<and>
          (\<forall>p\<in>set (programs db'). fitness w \<le> fitness p))) \<and>
    (int (length (programs db)) = max_size db \<and> \<not> min_fitness (programs db) < f \<longrightarrow>
       r = Inr False \<and> programs db' = programs db) \<and>
    (int (length (programs db)) = max_size db \<longrightarrow> int (length (programs db')) = max_size db')"
proof -
  let ?p = "new_program db c f m pid now"
  have inv: "db_inv db" using assms(2) db_inv_run[OF db_inv_init] by simp
  have ms: "max_size db = n" using assms(2) by (simp add: max_size_run init_database_def)
  have hp: "is_heap (programs db)" using inv by (simp add: db_inv_def)
  have r: "r = fst (add_program db c f m pid now)" and d: "db' = snd (add_program db c f m pid now)"
    using assms(3) by simp_all
  have ms': "max_size db' = max_size db" using d by (simp add: add_program_fields)
  have le: "int (length (programs db)) \<le> max_size db"
    using inv assms(1) ms by (simp add: db_inv_def)
  have below: "r = Inr True \<and> mset (programs db') = add_mset ?p (mset (programs db))"
    if "int (length (programs db)) < max_size db"
    using add_program_below[OF that, of c f m pid now] heappush_props(2)[OF hp, of ?p] r d
    by (metis fst_conv)
  have full: "(min_fitness (programs db) < f \<longrightarrow>
       r = Inr True \<and>
       (\<exists>w\<in>set (programs db). fitness w = min_fitness (programs db) \<and>
          mset (programs db') = add_mset ?p (mset (programs db) - {#w#}) \<and>
          (\<forall>p\<in>set (programs db'). fitness w \<le> fitness p))) \<and>
     (\<not> min_fitness (programs db) < f \<longrightarrow> r = Inr False \<and> programs db' = programs db) \<and>
     int (length (programs db')) = max_size db'"
    if eq: "int (length (programs db)) = max_size db"
  proof -
    have nl: "\<not> int (length (programs db)) < max_size db" using eq by simp
    have ne: "programs db \<noteq> []" using eq ms assms(1) by auto
    have mf: "fitness (programs db ! 0) = min_fitness (programs db)"
      by (rule heap_min_fitness[OF hp ne])
    have w_in: "programs db ! 0 \<in> set (programs db)" using ne by simp
    have minle: "\<And>q. q \<in> set (programs db) \<Longrightarrow> min_fitness (programs db) \<le> fitness q"
      unfolding min_fitness_def by (rule Min_le) auto
    show ?thesis
    proof (cases "min_fitness (programs db) < f")
      case True
      then have gt: "f > fitness (programs db ! 0)" using mf by simp
      from heapreplace_props[OF hp ne, of ?p] add_program_full(1)[OF nl ne gt, of c m pid now]
      have h': "r = Inr True"
        "mset (programs db') = add_mset ?p (mset (programs db) - {#programs db ! 0#})"
        "length (programs db') = length (programs db)" using r d by auto
      have "\<forall>q\<in>set (programs db'). fitness (programs db ! 0) \<le> fitness q"
      proof
        fix q assume "q \<in> set (programs db')"
        then have "q \<in># add_mset ?p (mset (programs db) - {#programs db ! 0#})"
          using h'(2) by (metis set_mset_mset)
        then have "q = ?p \<or> q \<in> set (programs db)" by (auto dest: in_diffD)
        then show "fitness (programs db ! 0) \<le> fitness q"
        proof
          assume "q = ?p"
          then show ?thesis using gt by (simp add: new_program_def)
        next
          assume "q \<in> set (programs db)"
          then show ?thesis using minle mf by simp
        qed
      qed
      then show ?thesis using True h' w_in mf eq ms' by auto
    next
      case False
      then have ngt: "\<not> f > fitness (programs db ! 0)" using mf by simp
      from add_program_full(2)[OF nl ne ngt, of c m pid now]
      show ?thesis using False r d eq ms' by simp
    qed
  qed
  show ?thesis using le below full by auto
qed


lemma example_programs:
  "programs (run_calls (init_database 3) example_calls) =
     [new_program (init_database 3) ''b'' 3 None None 1,
      new_program (init_database 3) ''a'' 5 None None 0,
      new_program (init_database 3) ''c'' 8 None None 2]"
  "max_size (run_calls (init_database 3) example_calls) = 3"
  by (simp_all add: example_calls_def eval_db new_program_def)

lemma example_min_fitness: "min_fitness (programs (run_calls (init_database 3) example_calls)) = 3"
  by (simp add: example_programs min_fitness_def new_program_def)

lemma example_evict:
  "fst (add_program (run_calls (init_database 3) example_calls) ''e'' 9 None None 4) = Inr True"
  "map fitness (programs (snd (add_program (run_calls (init_database 3) example_calls) ''e'' 9 None None 4)))
     = [5, 9, 8]"
  by (simp_all add: example_calls_def eval_db)

lemma example_reject:
  "add_program (run_calls (init_database 3) example_calls) ''d'' 1 None None 3 =
     (Inr False, run_calls (init_database 3) example_calls)"
  by (simp add: example_calls_def eval_db)

lemma example_insert:
  "programs (init_database 3) = []" "max_size (init_database 3) = 3"
  "fst (add_program (init_database 3) ''a'' 5 None None 0) = Inr True"
  "programs (snd (add_program (init_database 3) ''a'' 5 None None 0)) =
     [new_program (init_database 3) ''a'' 5 None None 0]"
  by (simp_all add: eval_db new_program_def)

theorem add_program_acceptance_witness:
  "(0::int) < 3 \<and>
   int (length (programs (init_database 3))) < max_size (init_database 3) \<and>
   fst (add_program (init_database 3) ''a'' 5 None None 0) = Inr True \<and>
   mset (programs (snd (add_program (init_database 3) ''a'' 5 None None 0))) =
     {#new_program (init_database 3) ''a'' 5 None None 0#} \<and>
   int (length (programs (run_calls (init_database 3) example_calls))) =
     max_size (run_calls (init_database 3) example_calls) \<and>
   min_fitness (programs (run_calls (init_database 3) example_calls)) = 3 \<and>
   fst (add_program (run_calls (init_database 3) example_calls) ''e'' 9 None None 4) = Inr True \<and>
   map fitness (programs (snd (add_program (run_calls (init_database 3) example_calls)
                                   ''e'' 9 None None 4))) = [5, 9, 8] \<and>
   fst (add_program (run_calls (init_database 3) example_calls) ''d'' 1 None None 3) = Inr False \<and>
   programs (snd (add_program (run_calls (init_database 3) example_calls) ''d'' 1 None None 3)) =
     programs (run_calls (init_database 3) example_calls)"
proof -
  let ?D = "run_calls (init_database 3) example_calls"
  have pos: "(0::int) < 3" by simp
  have below: "int (length (programs (init_database 3))) < max_size (init_database 3)"
    by (simp add: example_insert)
  have cap: "int (length (programs ?D)) = max_size ?D" by (simp add: example_programs)
  have lt: "min_fitness (programs ?D) < 9" and nlt: "\<not> min_fitness (programs ?D) < 1"
    by (simp_all add: example_min_fitness)
  have "run_calls (init_database 3) [] = init_database 3" by simp
  note A = add_program_acceptance[OF pos this[symmetric] surjective_pairing, of "''a''" 5 None None 0]
  note B = add_program_acceptance[OF pos refl surjective_pairing, of example_calls "''e''" 9 None None 4]
  note C = add_program_acceptance[OF pos refl surjective_pairing, of example_calls "''d''" 1 None None 3]
  have a: "fst (add_program (init_database 3) ''a'' 5 None None 0) = Inr True \<and>
    mset (programs (snd (add_program (init_database 3) ''a'' 5 None None 0))) =
      add_mset (new_program (init_database 3) ''a'' 5 None None 0) (mset (programs (init_database 3)))"
    using A below by blast
  have b: "fst (add_program ?D ''e'' 9 None None 4) = Inr True"
    using B cap lt by blast
  have c: "fst (add_program ?D ''d'' 1 None None 3) = Inr False \<and>
           programs (snd (add_program ?D ''d'' 1 None None 3)) = programs ?D"
    using C cap nlt by blast
  show ?thesis
    using pos below a b c cap example_min_fitness example_evict(2)
    by (simp add: example_insert(1))
qed

text \<open>
  Claim C2 has \<open>add_program\<close> return \<open>False\<close> and leave the stored programs unchanged
  whenever the database is not below capacity and the program does not exceed the minimum
  stored, as the docstring has it (\<open>True if program was added, False otherwise\<close>). With
  capacity 0 the empty database is not below capacity and has no minimum: the call returns
  neither \<open>True\<close> nor \<open>False\<close>, the read of \<open>self.programs[0]\<close> raises IndexError.
\<close>

theorem add_program_zero_capacity:
  "\<not> int (length (programs (init_database 0))) < max_size (init_database 0) \<and>
   programs (init_database 0) = [] \<and>
   fst (add_program (init_database 0) ''a'' 5 None None 0) = Inl IndexError \<and>
   fst (add_program (init_database 0) ''a'' 5 None None 0) \<noteq> Inr False"
  by (simp add: eval_db)

section \<open>Sampling a parent (C3)\<close>

lemma sorted_desc_mset: "mset (sorted_desc ps) = mset ps"
  by (simp add: sorted_desc_def)

lemma sorted_desc_sorted: "sorted_wrt (\<lambda>a b. fitness a \<ge> fitness b) (sorted_desc ps)"
proof -
  have "sorted (map fitness (sort_key fitness (rev ps)))" by (rule sorted_sort_key)
  then have "sorted_wrt (\<lambda>a b. fitness a \<le> fitness b) (sort_key fitness (rev ps))"
    by (simp add: sorted_map)
  then show ?thesis by (simp add: sorted_desc_def sorted_wrt_rev)
qed

lemma sample_pool_nonempty:
  assumes "programs db \<noteq> []"
  shows "sample_pool db = take (max 1 (length (programs db) div 5)) (sorted_desc (programs db))"
proof -
  have "nat (max 1 (int (length (programs db)) div 5)) = max 1 (length (programs db) div 5)"
    by (simp add: nat_div_distrib max_def) 
  then show ?thesis by (simp add: sample_pool_def get_best_def Let_def)
qed

text \<open>
  Claim C3, with the size of the pool as the code computes it. On a database without
  programs \<open>sample_program\<close> returns \<open>None\<close>. Otherwise the pool is the first
  \<open>max(1, size // 5)\<close> programs of the stored programs sorted by descending fitness, and
  the draw \<open>k\<close> of \<open>random.choice\<close>, uniform on the indices of the pool, selects the
  program at index \<open>k\<close> of the pool.
\<close>

theorem sample_program_pool:
  "(programs db = [] \<longrightarrow> sample_program db k = None) \<and>
   (programs db \<noteq> [] \<longrightarrow>
      sample_pool db = take (max 1 (length (programs db) div 5)) (sorted_desc (programs db)) \<and>
      length (sample_pool db) = max 1 (length (programs db) div 5) \<and>
      mset (sorted_desc (programs db)) = mset (programs db) \<and>
      sorted_wrt (\<lambda>a b. fitness a \<ge> fitness b) (sorted_desc (programs db)) \<and>
      (k < length (sample_pool db) \<longrightarrow> sample_program db k = Some (sample_pool db ! k)))"
proof (intro conjI impI)
  assume "programs db = []"
  then show "sample_program db k = None" by (simp add: sample_program_def)
next
  assume ne: "programs db \<noteq> []"
  show p: "sample_pool db = take (max 1 (length (programs db) div 5)) (sorted_desc (programs db))"
    by (rule sample_pool_nonempty[OF ne])
  have sl: "length (sorted_desc (programs db)) = length (programs db)"
    by (simp add: sorted_desc_def)
  have "0 < length (programs db)" using ne by simp
  then have "min (length (programs db)) (max 1 (length (programs db) div 5)) =
    max 1 (length (programs db) div 5)" by arith
  then show "length (sample_pool db) = max 1 (length (programs db) div 5)"
    unfolding p length_take sl .
  show "mset (sorted_desc (programs db)) = mset (programs db)" by (rule sorted_desc_mset)
  show "sorted_wrt (\<lambda>a b. fitness a \<ge> fitness b) (sorted_desc (programs db))"
    by (rule sorted_desc_sorted)
  show "sample_program db k = Some (sample_pool db ! k)" using ne by (simp add: sample_program_def)
qed

lemma six_programs:
  "map fitness (programs (run_calls (init_database 100) six_calls)) = [1, 3, 7, 5, 9, 8]"
  by (simp add: six_calls_def eval_db)

lemma six_pool:
  "map fitness (sample_pool (run_calls (init_database 100) six_calls)) = [9]"
  by (simp add: six_calls_def eval_db sample_pool_def get_best_def sorted_desc_def)

lemma six_sorted:
  "map fitness (sorted_desc (programs (run_calls (init_database 100) six_calls))) = [9, 8, 7, 5, 3, 1]"
  by (simp add: six_calls_def eval_db sample_pool_def get_best_def sorted_desc_def)

text \<open>
  With six programs stored the ceiling of 6/5 is 2, but the pool holds the best program
  only: the program of fitness 8, second of the top two, is never sampled.
\<close>

theorem sample_pool_ceiling_counterexample:
  "length (programs (run_calls (init_database 100) six_calls)) = 6 \<and>
   \<lceil>(6::real) / 5\<rceil> = (2::int) \<and>
   map fitness (sample_pool (run_calls (init_database 100) six_calls)) = [9] \<and>
   map fitness (take 2 (sorted_desc (programs (run_calls (init_database 100) six_calls)))) = [9, 8]"
proof -
  have "length (map fitness (programs (run_calls (init_database 100) six_calls))) = 6"
    unfolding six_programs by simp
  moreover have "\<lceil>(6::real) / 5\<rceil> = (2::int)" by simp
  moreover have "map fitness (take 2 (sorted_desc (programs (run_calls (init_database 100) six_calls)))) = [9, 8]"
    unfolding take_map[symmetric] six_sorted by simp
  ultimately show ?thesis using six_pool by simp
qed

theorem sample_program_pool_witness:
  "programs (init_database 3) = [] \<and> sample_program (init_database 3) 0 = None \<and>
   programs (run_calls (init_database 100) six_calls) \<noteq> [] \<and>
   length (sample_pool (run_calls (init_database 100) six_calls)) = 1 \<and>
   0 < length (sample_pool (run_calls (init_database 100) six_calls)) \<and>
   sample_program (run_calls (init_database 100) six_calls) 0 =
     Some (sample_pool (run_calls (init_database 100) six_calls) ! 0) \<and>
   map fitness (sample_pool (run_calls (init_database 100) six_calls)) = [9]"
proof -
  let ?D = "run_calls (init_database 100) six_calls"
  have e: "programs (init_database 3) = []" by (simp add: init_database_def)
  have l: "length (map fitness (programs ?D)) = 6" unfolding six_programs by simp
  then have ne: "programs ?D \<noteq> []" by auto
  have "length (sample_pool ?D) = max 1 (length (programs ?D) div 5)"
    using sample_program_pool[of ?D 0] ne by blast
  then have l1: "length (sample_pool ?D) = 1" using l by simp
  then have "0 < length (sample_pool ?D)" by simp
  then have s: "sample_program ?D 0 = Some (sample_pool ?D ! 0)"
    using sample_program_pool[of ?D 0] ne by blast
  have "sample_program (init_database 3) 0 = None"
    using sample_program_pool[of "init_database 3" 0] e by blast
  then show ?thesis
    using e ne l1 s six_pool by simp
qed

section \<open>The running totals of a trial\<close>

lemma update_mouse_result:
  assumes "update_mouse self beh st ps m bs tss tds = Inr (m', bs', tss', tds')"
  shows "alive m' = alive m"
    "tss' = tss + (if alive m then 1 else 0)"
    "tds' = tds + (if alive m then nearest_distance ps m m' else 0)"
  using assms
  by (auto simp: update_mouse_def nearest_distance_def Let_def
      split: if_splits option.splits prod.splits call_result.splits)

lemma update_mice_result:
  assumes "update_mice self beh st ps ms bs tss tds = Inr (ms', bs', tss', tds')"
  shows "map alive ms' = map alive ms \<and> length ms' = length ms \<and>
    tss' = tss + length (filter alive ms) \<and>
    tds' = tds + (\<Sum>(m, m')\<leftarrow>zip ms ms'. if alive m then nearest_distance ps m m' else 0)"
  using assms
proof (induction ms arbitrary: ms' bs tss tds)
  case Nil
  then show ?case by simp
next
  case (Cons m ms)
  from Cons.prems obtain m1 bs1 tss1 tds1 where
    u: "update_mouse self beh st ps m bs tss tds = Inr (m1, bs1, tss1, tds1)"
    by (auto split: sum.splits)
  from Cons.prems u obtain ms1 where
    r: "update_mice self beh st ps ms bs1 tss1 tds1 = Inr (ms1, bs', tss', tds')" and
    e: "ms' = m1 # ms1"
    by (auto split: sum.splits)
  note U = update_mouse_result[OF u]
  from Cons.IH[OF r] U e show ?case by auto
qed


lemma capture_positions:
  "map agent_x (capture self p ms) = map agent_x ms"
  "map agent_y (capture self p ms) = map agent_y ms"
  by (simp_all add: capture_def comp_def)

lemma check_captures_positions:
  "map agent_x (check_captures self ps ms) = map agent_x ms \<and>
   map agent_y (check_captures self ps ms) = map agent_y ms"
  unfolding check_captures_def
  by (induction ps arbitrary: ms) (simp_all add: capture_positions)

lemma check_captures_length: "length (check_captures self ps ms) = length ms"
  using check_captures_positions[of self ps ms] by (metis length_map)

lemma nearest_distance_position:
  "agent_x m' = agent_x m'' \<Longrightarrow> agent_y m' = agent_y m'' \<Longrightarrow>
   nearest_distance ps m m' = nearest_distance ps m m''"
  by (simp add: nearest_distance_def distance_to_def split: option.splits)

lemma sum_nearest_positions:
  "map agent_x ms' = map agent_x ms'' \<Longrightarrow> map agent_y ms' = map agent_y ms'' \<Longrightarrow>
   (\<Sum>(m, m')\<leftarrow>zip ms ms'. if alive m then nearest_distance ps m m' else 0) =
   (\<Sum>(m, m')\<leftarrow>zip ms ms''. if alive m then nearest_distance ps m m' else 0)"
proof (induction ms arbitrary: ms' ms'')
  case Nil
  then show ?case by simp
next
  case (Cons m ms)
  show ?case
  proof (cases ms')
    case Nil
    then show ?thesis using Cons.prems by simp
  next
    case c1: (Cons a as)
    then obtain b bs where c2: "ms'' = b # bs" using Cons.prems by (cases ms'') auto
    have "nearest_distance ps m a = nearest_distance ps m b"
      using Cons.prems c1 c2 by (intro nearest_distance_position) auto
    moreover have "(\<Sum>(m, m')\<leftarrow>zip ms as. if alive m then nearest_distance ps m m' else 0) =
      (\<Sum>(m, m')\<leftarrow>zip ms bs. if alive m then nearest_distance ps m m' else 0)"
      using Cons.prems c1 c2 by (intro Cons.IH) auto
    ultimately show ?thesis using c1 c2 by simp
  qed
qed

lemma simulation_step_result:
  assumes "simulation_step self beh step t = Inr t'"
  shows "total_survival_steps t' = total_survival_steps t + length (filter alive (mice t))"
    "total_distance_score t' = total_distance_score t + step_distance t t'"
    "length (mice t') = length (mice t)"
    "length (predators t') = length (predators t)"
proof -
  let ?st = "\<lparr>state_step = step, state_width = width self, state_height = height self,
               state_num_alive = int (length (filter alive (mice t)))\<rparr>"
  from assms obtain ms' bs' tss' tds' where
    u: "update_mice self beh ?st (predators t) (mice t) (behavior_state t)
          (total_survival_steps t) (total_distance_score t) = Inr (ms', bs', tss', tds')"
    by (auto simp: simulation_step_def Let_def split: sum.splits)
  let ?ps' = "map (update_predator self ms') (predators t)"
  have t': "t' = \<lparr>mice = check_captures self ?ps' ms', predators = ?ps', behavior_state = bs',
                  total_survival_steps = tss', total_distance_score = tds'\<rparr>"
    using assms u by (simp add: simulation_step_def Let_def)
  note R = update_mice_result[OF u]
  show "total_survival_steps t' = total_survival_steps t + length (filter alive (mice t))"
    using R t' by simp
  show "length (mice t') = length (mice t)" using R t' by (simp add: check_captures_length)
  show "length (predators t') = length (predators t)" using t' by simp
  have mt: "mice t' = check_captures self ?ps' ms'" using t' by simp
  have "step_distance t t' =
    (\<Sum>(m, m')\<leftarrow>zip (mice t) ms'. if alive m then nearest_distance (predators t) m m' else 0)"
    unfolding step_distance_def mt
    by (rule sum_nearest_positions) (simp_all add: check_captures_positions)
  then show "total_distance_score t' = total_distance_score t + step_distance t t'"
    using R t' by simp
qed




lemma run_simulation_unfold:
  "run_simulation self beh bs g =
     (case run_steps self beh (py_range (max_steps self)) (initial_trial self bs g) of
        Inl e \<Rightarrow> Inl e
      | Inr t \<Rightarrow>
          (case calculate_fitness self t of
             Inl e \<Rightarrow> Inl e
           | Inr v \<Rightarrow> Inr (v, behavior_state t, snd (initialize_agents self g))))"
  by (simp add: run_simulation_def initial_trial_def Let_def case_prod_beta)








lemma min_by_Some: "ps \<noteq> [] \<Longrightarrow> \<exists>p. min_by f ps = Some p"
  by (induction ps) (auto split: option.splits)

lemma update_mouse_returns:
  assumes "ps \<noteq> []"
    and "raises_only_errors beh"
  shows "\<exists>r. update_mouse self beh st ps m bs tss tds = Inr r"
proof (cases "alive m")
  case False
  then show ?thesis by (simp add: update_mouse_def)
next
  case True
  obtain p where p: "min_by (\<lambda>p. distance_to m p) ps = Some p"
    using min_by_Some[OF assms(1)] by blast
  obtain res bs1 where b: "beh bs st (agent_x m, agent_y m) (agent_x p, agent_y p) = (res, bs1)"
    by fastforce
  show ?thesis
  proof (cases res)
    case (Raises e)
    then have "fst (beh bs st (agent_x m, agent_y m) (agent_x p, agent_y p)) = Raises e"
      using b by simp
    then have "derives_Exception e" using assms(2) unfolding raises_only_errors_def by blast
    then show ?thesis using True p b Raises by (simp add: update_mouse_def)
  next
    case Malformed
    then show ?thesis using True p b by (simp add: update_mouse_def)
  next
    case (Direction dx dy)
    then show ?thesis using True p b by (simp add: update_mouse_def Let_def case_prod_beta)
  qed
qed

lemma update_mice_returns:
  assumes "ps \<noteq> []"
    and "raises_only_errors beh"
  shows "\<exists>r. update_mice self beh st ps ms bs tss tds = Inr r"
proof (induction ms arbitrary: bs tss tds)
  case Nil
  then show ?case by simp
next
  case (Cons m ms)
  obtain m1 bs1 tss1 tds1 where
    u: "update_mouse self beh st ps m bs tss tds = Inr (m1, bs1, tss1, tds1)"
    using update_mouse_returns[OF assms, where self=self and st=st and m=m and bs=bs and tss=tss
            and tds=tds] by auto
  obtain ms1 r1 where "update_mice self beh st ps ms bs1 tss1 tds1 = Inr (ms1, r1)"
    using Cons.IH[of bs1 tss1 tds1] by auto
  then show ?case using u by (cases r1) simp
qed

lemma simulation_step_returns:
  assumes "predators t \<noteq> []"
    and "raises_only_errors beh"
  shows "\<exists>t'. simulation_step self beh step t = Inr t'"
proof -
  let ?st = "\<lparr>state_step = step, state_width = width self, state_height = height self,
               state_num_alive = int (length (filter alive (mice t)))\<rparr>"
  obtain ms' bs' tss' tds' where
    "update_mice self beh ?st (predators t) (mice t) (behavior_state t)
          (total_survival_steps t) (total_distance_score t) = Inr (ms', bs', tss', tds')"
    using update_mice_returns[OF assms, where self=self and st="?st" and ms="mice t"
            and bs="behavior_state t" and tss="total_survival_steps t"
            and tds="total_distance_score t"] by auto
  then show ?thesis by (simp add: simulation_step_def Let_def)
qed

lemma run_steps_returns:
  assumes "raises_only_errors beh"
  shows "predators t \<noteq> [] \<Longrightarrow> \<exists>tf. run_steps self beh steps t = Inr tf"
proof (induction steps arbitrary: t)
  case Nil
  then show ?case by simp
next
  case (Cons step steps)
  obtain t' where s: "simulation_step self beh step t = Inr t'"
    using simulation_step_returns[OF Cons.prems assms, where self=self and step=step] by auto
  have "predators t' \<noteq> []" using simulation_step_result(4)[OF s] Cons.prems by auto
  from Cons.IH[OF this] s show ?case by auto
qed

lemma place_agents_length: "length (fst (place_agents self k g)) = k"
  by (induction k arbitrary: g) (simp_all add: Let_def case_prod_beta)

lemma initial_trial_lengths:
  "length (mice (initial_trial self bs g)) = nat (num_mice self)"
  "length (predators (initial_trial self bs g)) = nat (num_predators self)"
  by (simp_all add: initial_trial_def initialize_agents_def Let_def case_prod_beta place_agents_length)

lemma calculate_fitness_returns:
  "0 < num_mice self \<Longrightarrow> 0 < max_steps self \<Longrightarrow> \<exists>v. calculate_fitness self t = Inr v"
  by (simp add: calculate_fitness_def Let_def)

lemma run_simulation_returns:
  assumes "0 < num_mice self" "0 < max_steps self" "0 < num_predators self"
    and "raises_only_errors beh"
  shows "\<exists>r. run_simulation self beh bs g = Inr r"
proof -
  have "predators (initial_trial self bs g) \<noteq> []"
    using initial_trial_lengths(2)[of self bs g] assms(3) by auto
  then obtain tf where
    "run_steps self beh (py_range (max_steps self)) (initial_trial self bs g) = Inr tf"
    using run_steps_returns[OF assms(4)] by blast
  moreover obtain v where "calculate_fitness self tf = Inr v"
    using calculate_fitness_returns[OF assms(1,2)] by blast
  ultimately show ?thesis unfolding run_simulation_unfold by simp
qed

lemma run_trials_returns:
  assumes "0 < num_mice env" "0 < max_steps env" "0 < num_predators env"
    and "raises_only_errors beh"
  shows "\<exists>scores. run_trials env beh k bs g = Inr scores"
proof (induction k arbitrary: bs g)
  case 0
  then show ?case by simp
next
  case (Suc k)
  obtain v bs1 g1 where r: "run_simulation env beh bs g = Inr (v, bs1, g1)"
    using run_simulation_returns[OF assms, where bs=bs and g=g] by auto
  obtain rest where "run_trials env beh k bs1 g1 = Inr rest" using Suc.IH by blast
  then show ?case using r by simp
qed










section \<open>Where the exceptions of an evaluation come from\<close>








lemma evaluate_cases:
  "evaluate py env src n g =
     (case evaluate_try py env src n g of
        Inl e \<Rightarrow> if derives_Exception e
                 then Inr (- 1, [''error'' \<mapsto> MStr (exc_str e), ''traceback'' \<mapsto> MStr (format_exc py e)])
                 else Inl e
      | Inr r \<Rightarrow> Inr r)"
  by (simp add: evaluate_def)



section \<open>A trial carried out\<close>

lemma sqrt_2401: "sqrt 2401 = 49"
  using real_sqrt_abs[of 49] by simp


lemma example_initial:
  "initial_trial example_env () example_rng =
     \<lparr>mice = [\<lparr>agent_x = 0, agent_y = 0, alive = True\<rparr>],
      predators = [\<lparr>agent_x = 50, agent_y = 0, alive = True\<rparr>],
      behavior_state = (), total_survival_steps = 0, total_distance_score = 0\<rparr>"
  by (simp add: initial_trial_def initialize_agents_def example_env_def example_rng_def
      uniform_def Let_def eval_nat_numeral)

lemma example_step:
  "simulation_step example_env moving_behavior 0 (initial_trial example_env () example_rng) =
     Inr \<lparr>mice = [\<lparr>agent_x = 1, agent_y = 0, alive = True\<rparr>],
          predators = [\<lparr>agent_x = 97 / 2, agent_y = 0, alive = True\<rparr>],
          behavior_state = (), total_survival_steps = 1, total_distance_score = 49\<rparr>"
  unfolding example_initial
  by (simp add: simulation_step_def update_mouse_def moving_behavior_def
      distance_to_def Let_def clip_position_def example_env_def update_predator_def
      predator_behavior_def check_captures_def capture_def sqrt_2401)

lemma example_run_steps:
  "run_steps example_env moving_behavior (py_range (max_steps example_env))
     (initial_trial example_env () example_rng) = Inr example_final"
proof -
  have "py_range (max_steps example_env) = [0]" by (simp add: py_range_def example_env_def)
  then show ?thesis using example_step by (simp add: example_final_def)
qed


lemma example_fitness:
  "run_simulation example_env moving_behavior () example_rng =
     Inr (349 / 2, (), snd (initialize_agents example_env example_rng))"
  unfolding run_simulation_unfold example_run_steps
  by (simp add: calculate_fitness_def example_final_def example_env_def)


section \<open>The fitness of a trial (C4)\<close>



section \<open>A failing call of the behavior (C6)\<close>






section \<open>The random sequence decides the placement only (C7)\<close>




section \<open>Scores and the failure value (C9)\<close>




lemma example_trials:
  "run_trials example_env moving_behavior (nat 1) () example_rng = Inr [349 / 2]"
  by (simp add: example_fitness)





section \<open>Exceptions in an evaluation (C5)\<close>






section \<open>An evaluation without trials (C10)\<close>



section \<open>An iteration on a candidate that does not parse (C8)\<close>




end
